theory Spec2Isabelle
  imports Main "HOL-Library.Word"
begin

unbundle bit_operations_syntax

section \<open>The binary reader of ct\_moniteur (binary\_reader.py)\<close>

subsection \<open>Data model\<close>

text \<open>
  A Python \<open>bytes\<close> object is a list of octets; Python integers are unbounded, so
  sizes, counts and the offset are \<open>int\<close> (the source never restricts their sign).
\<close>

type_synonym byte = "8 word"

text \<open>\<open>class DataType(Enum)\<close>; the member \<open>INT\<close> is written \<open>INT'\<close>.\<close>

datatype DataType = UINT | INT' | BOOL | BYTES

text \<open>\<open>class Endianness(Enum)\<close>.\<close>

datatype Endianness = BIG | LITTLE

text \<open>
  The attributes \<open>_data\<close>, \<open>_offset\<close> and \<open>_endianness\<close> of \<open>BinaryReader\<close>.
  The field \<open>offset\<close> is also the property \<open>offset\<close>.
\<close>

record BinaryReader =
  data :: "byte list"
  offset :: int
  endianness :: Endianness

text \<open>
  Every \<open>raise\<close> of the source is a \<open>ValueError\<close>; the raise sites differ in their
  message only, which is kept here with the numbers it prints. \<open>IndexError\<close> is what
  indexing an empty view raises.
\<close>

datatype message =
    SizeMustBePositive int
  | CannotRead int int nat
  | BoolMustBe1Byte int
  | UnknownDataType
  | CannotSkip int int nat
  | InvalidSeekOffset int nat
  | CannotPeek int int nat

datatype error = ValueError message | IndexError

text \<open>What \<open>read\<close> returns: \<open>int\<close> for UINT/INT, \<open>bool\<close> for BOOL, \<open>bytes\<close> for BYTES.\<close>

datatype val = VInt int | VBool bool | VBytes "byte list"

subsection \<open>Python primitives used by the reader\<close>

text \<open>
  \<open>xs[start:stop]\<close> with step 1: a negative index counts from the end, and both
  indices are clamped to \<open>[0, len(xs)]\<close>.
\<close>

definition adjust_index :: "int \<Rightarrow> int \<Rightarrow> int" where
  "adjust_index n i =
     (if i < 0 then (if i + n < 0 then 0 else i + n)
      else if i > n then n else i)"

definition py_slice :: "'a list \<Rightarrow> int \<Rightarrow> int \<Rightarrow> 'a list" where
  "py_slice xs start stop =
     (let n = int (length xs);
          lo = adjust_index n start;
          hi = adjust_index n stop
      in take (nat (hi - lo)) (drop (nat lo) xs))"

text \<open>
  \<open>int.from_bytes(bytes, byteorder, signed)\<close>, as the Python reference documents it:
  \<^verbatim>\<open>
  little_ordered = list(bytes) if byteorder == 'little' else list(reversed(bytes))
  n = sum(b << i*8 for i, b in enumerate(little_ordered))
  if signed and little_ordered and (little_ordered[-1] & 0x80):
      n -= 1 << 8*len(little_ordered)
  return n
  \<close>
\<close>

definition from_bytes :: "byte list \<Rightarrow> Endianness \<Rightarrow> bool \<Rightarrow> int" where
  "from_bytes bytes byteorder is_signed =
     (let little_ordered = (case byteorder of LITTLE \<Rightarrow> bytes | BIG \<Rightarrow> rev bytes);
          n = sum_list (map (\<lambda>(i, b). push_bit (i * 8) (uint b)) (enumerate 0 little_ordered))
      in if is_signed \<and> little_ordered \<noteq> [] \<and> (last little_ordered AND 0x80) \<noteq> 0
         then n - push_bit (8 * length little_ordered) 1
         else n)"

subsection \<open>The reader\<close>

definition init :: "byte list \<Rightarrow> Endianness \<Rightarrow> BinaryReader" where
  "init d e = \<lparr>data = d, offset = 0, endianness = e\<rparr>"

definition remaining :: "BinaryReader \<Rightarrow> int" where
  "remaining r = int (length (data r)) - offset r"

definition size_r :: "BinaryReader \<Rightarrow> int" where
  "size_r r = int (length (data r))"

definition has_bytes :: "BinaryReader \<Rightarrow> int \<Rightarrow> bool" where
  "has_bytes r count = (offset r + count \<le> int (length (data r)))"

text \<open>
  A method that raises after it has assigned to \<open>self._offset\<close> leaves the new offset
  behind, so every method returns its outcome together with the reader as it is afterwards.
  The four members of \<open>DataType\<close> are told apart by a \<open>case\<close>; the source's last
  \<open>else\<close>, "Unknown data type", is reached by no member of the enum.
\<close>

definition read :: "BinaryReader \<Rightarrow> DataType \<Rightarrow> int \<Rightarrow> (error + val) \<times> BinaryReader" where
  "read r data_type sz =
     (if sz \<le> 0 then (Inl (ValueError (SizeMustBePositive sz)), r)
      else if \<not> has_bytes r sz
        then (Inl (ValueError (CannotRead sz (offset r) (length (data r)))), r)
      else
        let data_view = py_slice (data r) (offset r) (offset r + sz);
            r' = r\<lparr>offset := offset r + sz\<rparr>
        in (case data_type of
              BYTES \<Rightarrow> (Inr (VBytes data_view), r')
            | BOOL \<Rightarrow>
                if sz \<noteq> 1 then (Inl (ValueError (BoolMustBe1Byte sz)), r')
                else (case data_view of
                        [] \<Rightarrow> (Inl IndexError, r')
                      | b # _ \<Rightarrow> (Inr (VBool (b \<noteq> 0)), r'))
            | UINT \<Rightarrow> (Inr (VInt (from_bytes data_view (endianness r) False)), r')
            | INT' \<Rightarrow> (Inr (VInt (from_bytes data_view (endianness r) True)), r')))"

definition skip :: "BinaryReader \<Rightarrow> int \<Rightarrow> (error + unit) \<times> BinaryReader" where
  "skip r count =
     (if \<not> has_bytes r count
        then (Inl (ValueError (CannotSkip count (offset r) (length (data r)))), r)
      else (Inr (), r\<lparr>offset := offset r + count\<rparr>))"

definition seek :: "BinaryReader \<Rightarrow> int \<Rightarrow> (error + unit) \<times> BinaryReader" where
  "seek r off =
     (if off < 0 \<or> off > int (length (data r))
        then (Inl (ValueError (InvalidSeekOffset off (length (data r)))), r)
      else (Inr (), r\<lparr>offset := off\<rparr>))"

definition peek :: "BinaryReader \<Rightarrow> int \<Rightarrow> (error + byte list) \<times> BinaryReader" where
  "peek r sz =
     (if \<not> has_bytes r sz
        then (Inl (ValueError (CannotPeek sz (offset r) (length (data r)))), r)
      else (Inr (py_slice (data r) (offset r) (offset r + sz)), r))"

subsection \<open>Sequences of calls\<close>

datatype call = Read DataType int | Skip int | Seek int

fun after_call :: "BinaryReader \<Rightarrow> call \<Rightarrow> BinaryReader" where
  "after_call r (Read t n) = snd (read r t n)"
| "after_call r (Skip n) = snd (skip r n)"
| "after_call r (Seek n) = snd (seek r n)"

fun failed :: "BinaryReader \<Rightarrow> call \<Rightarrow> bool" where
  "failed r (Read t n) = isl (fst (read r t n))"
| "failed r (Skip n) = isl (fst (skip r n))"
| "failed r (Seek n) = isl (fst (seek r n))"

definition run :: "BinaryReader \<Rightarrow> call list \<Rightarrow> BinaryReader" where
  "run r cs = foldl after_call r cs"

text \<open>The calls other than a skip by a negative count.\<close>

fun forward :: "call \<Rightarrow> bool" where
  "forward (Skip n) = (0 \<le> n)"
| "forward (Read t n) = True"
| "forward (Seek n) = True"

subsection \<open>Notions of the specification\<close>

text \<open>
  The specification names three kinds of error. The source raises \<open>ValueError\<close>
  throughout, so a kind is read off the message: the two complaints about the size are
  \<open>InvalidSize\<close>, the three about missing bytes are \<open>OutOfBounds\<close>, the one about the
  seek target is \<open>InvalidOffset\<close>.
\<close>

datatype error_kind = InvalidSize | OutOfBounds | InvalidOffset

fun error_kind_of :: "error \<Rightarrow> error_kind option" where
  "error_kind_of (ValueError (SizeMustBePositive _)) = Some InvalidSize"
| "error_kind_of (ValueError (BoolMustBe1Byte _)) = Some InvalidSize"
| "error_kind_of (ValueError (CannotRead _ _ _)) = Some OutOfBounds"
| "error_kind_of (ValueError (CannotSkip _ _ _)) = Some OutOfBounds"
| "error_kind_of (ValueError (CannotPeek _ _ _)) = Some OutOfBounds"
| "error_kind_of (ValueError (InvalidSeekOffset _ _)) = Some InvalidOffset"
| "error_kind_of (ValueError UnknownDataType) = None"
| "error_kind_of IndexError = None"

text \<open>The offset invariant of the specification: \<open>0 \<le> offset \<le> size()\<close>.\<close>

definition offset_in_range :: "BinaryReader \<Rightarrow> bool" where
  "offset_in_range r = (0 \<le> offset r \<and> offset r \<le> size_r r)"

text \<open>
  The bytes a read of \<open>sz\<close> bytes consumes when the offset is in range: the \<open>sz\<close> bytes
  from the offset on.
\<close>

definition consumed :: "BinaryReader \<Rightarrow> int \<Rightarrow> byte list" where
  "consumed r sz = take (nat sz) (drop (nat (offset r)) (data r))"

text \<open>
  A byte sequence as an unsigned integer: most-significant byte first for \<open>BIG\<close>
  (each further byte shifts what was read so far up by one byte), least-significant byte
  first for \<open>LITTLE\<close>.
\<close>

definition unsigned_value :: "Endianness \<Rightarrow> byte list \<Rightarrow> int" where
  "unsigned_value e bs =
     (case e of
        BIG \<Rightarrow> foldl (\<lambda>acc b. 256 * acc + uint b) 0 bs
      | LITTLE \<Rightarrow> foldr (\<lambda>b acc. uint b + 256 * acc) bs 0)"

text \<open>
  Two's complement over \<open>w\<close> bits: the bits below the most-significant one keep their
  weight, the most-significant bit weighs \<open>- 2 ^ (w - 1)\<close>.
\<close>

definition twos_complement :: "nat \<Rightarrow> int \<Rightarrow> int" where
  "twos_complement w u = take_bit (w - 1) u - (if bit u (w - 1) then 2 ^ (w - 1) else 0)"

text \<open>
  Re-encoding an integer as \<open>len\<close> bytes, which is Python's \<open>n.to_bytes(len, byteorder)\<close>:
  \<^verbatim>\<open>bytes((n >> i*8) & 0xff for i in order)\<close> with \<open>order\<close> running over the byte
  positions, downwards for big-endian, and an OverflowError (here \<open>None\<close>) for a negative
  \<open>n\<close> or one that does not fit. The reader never calls it; the round trip does.
\<close>

definition to_bytes :: "int \<Rightarrow> nat \<Rightarrow> Endianness \<Rightarrow> byte list option" where
  "to_bytes n len byteorder =
     (if n < 0 \<or> 2 ^ (8 * len) \<le> n then None
      else
        let order = (case byteorder of LITTLE \<Rightarrow> [0..<len] | BIG \<Rightarrow> rev [0..<len])
        in Some (map (\<lambda>i. word_of_int (drop_bit (i * 8) n AND 0xff)) order))"

section \<open>Auxiliary facts\<close>

subsection \<open>Slices\<close>

lemma slice_in_range:
  assumes "0 \<le> off" "0 \<le> n" "off + n \<le> int (length xs)"
  shows "py_slice xs off (off + n) = take (nat n) (drop (nat off) xs)"
  using assms by (auto simp: py_slice_def adjust_index_def Let_def)

lemma slice_consumed:
  assumes "0 \<le> offset r" "0 \<le> sz" "has_bytes r sz"
  shows "py_slice (data r) (offset r) (offset r + sz) = consumed r sz"
    and "length (consumed r sz) = nat sz"
  using assms by (auto simp: consumed_def has_bytes_def slice_in_range)

lemma slice_whole: "py_slice xs 0 (int (length xs)) = xs"
  by (simp add: py_slice_def adjust_index_def Let_def)

subsection \<open>Decoding integers\<close>

lemma sum_enumerate_shift:
  "sum_list (map (\<lambda>(i, b). push_bit (i * 8) (uint b)) (enumerate k bs)) =
     256 ^ k * horner_sum uint 256 (bs :: byte list)"
proof (induction bs arbitrary: k)
  case Nil
  show ?case by simp
next
  case (Cons b bs)
  have "(256::int) ^ k = (2 ^ 8) ^ k" by simp
  also have "\<dots> = 2 ^ (8 * k)" by (rule power_mult [symmetric])
  also have "\<dots> = 2 ^ (k * 8)" by (simp only: mult.commute)
  finally have pow: "(2::int) ^ (k * 8) = 256 ^ k" by simp
  have "sum_list (map (\<lambda>(i, b). push_bit (i * 8) (uint b)) (enumerate k (b # bs))) =
      push_bit (k * 8) (uint b) +
      sum_list (map (\<lambda>(i, b). push_bit (i * 8) (uint b)) (enumerate (Suc k) bs))"
    by simp
  also have "\<dots> = push_bit (k * 8) (uint b) + 256 ^ Suc k * horner_sum uint 256 bs"
    by (simp only: Cons.IH)
  also have "\<dots> = 256 ^ k * horner_sum uint 256 (b # bs)"
    by (simp add: push_bit_eq_mult pow algebra_simps)
  finally show ?case .
qed

lemma from_bytes_unsigned:
  "from_bytes bs e False = horner_sum uint 256 (case e of LITTLE \<Rightarrow> bs | BIG \<Rightarrow> rev bs)"
  by (cases e) (simp_all add: from_bytes_def Let_def sum_enumerate_shift)

lemma horner_bytes_bounds:
  "0 \<le> horner_sum uint 256 (bs :: byte list) \<and> horner_sum uint 256 bs < 256 ^ length bs"
proof (induction bs)
  case Nil
  show ?case by simp
next
  case (Cons b bs)
  have "uint b < 256" using uint_bounded [of b] by simp
  moreover have "0 \<le> uint b" by simp
  ultimately show ?case using Cons.IH by simp
qed

lemma byte_sign_bit: "((b :: byte) AND 0x80 \<noteq> 0) = (128 \<le> uint b)"
proof -
  have "(b AND 2 ^ 7 = 0) = (\<not> bit b 7)" by (rule and_exp_eq_0_iff_not_bit)
  moreover have "bit b 7 = bit (uint b) 7" by (simp add: bit_uint_iff)
  moreover have "bit (uint b) 7 = odd (uint b div 128)" by (simp add: bit_iff_odd)
  moreover have "odd (uint b div 128) = (128 \<le> uint b)"
  proof -
    have "uint b < 256" "0 \<le> uint b" using uint_bounded [of b] by simp_all
    then have "uint b div 128 = (if 128 \<le> uint b then 1 else 0)" by auto
    then show ?thesis by simp
  qed
  ultimately show ?thesis by simp
qed

lemma horner_snoc:
  "horner_sum uint 256 (bs @ [b :: byte]) = horner_sum uint 256 bs + 256 ^ length bs * uint b"
  by (simp add: horner_sum_append)


lemma horner_sign:
  "(128 \<le> uint (b :: byte)) = (2 ^ (8 * length (bs @ [b]) - 1) \<le> horner_sum uint 256 (bs @ [b]))"
proof -
  let ?n = "length bs"
  let ?h = "horner_sum uint 256 bs"
  have h: "0 \<le> ?h" "?h < 256 ^ ?n" using horner_bytes_bounds [of bs] by simp_all
  have p: "(2::int) ^ (8 * length (bs @ [b]) - 1) = 256 ^ ?n * 128"
  proof -
    have "8 * length (bs @ [b]) - 1 = 8 * ?n + 7" by simp
    then have "(2::int) ^ (8 * length (bs @ [b]) - 1) = 2 ^ (8 * ?n) * 2 ^ 7"
      by (simp only: power_add)
    also have "(2::int) ^ (8 * ?n) = (2 ^ 8) ^ ?n" by (rule power_mult)
    finally show ?thesis by simp
  qed
  have pos: "(0::int) < 256 ^ ?n" by simp
  show ?thesis
  proof (cases "128 \<le> uint b")
    case True
    then have "256 ^ ?n * 128 \<le> 256 ^ ?n * uint b" using pos by simp
    with h True show ?thesis unfolding horner_snoc p by linarith
  next
    case False
    then have "uint b + 1 \<le> 128" by simp
    then have "256 ^ ?n * (uint b + 1) \<le> 256 ^ ?n * 128" using pos by (simp only: mult_le_cancel_left_pos)
    then have "256 ^ ?n * uint b + 256 ^ ?n \<le> 256 ^ ?n * 128" by (simp add: algebra_simps)
    with h False show ?thesis unfolding horner_snoc p by linarith
  qed
qed

lemma foldl_horner:
  "foldl (\<lambda>acc b. 256 * acc + uint b) a (bs :: byte list) =
     256 ^ length bs * a + horner_sum uint 256 (rev bs)"
  by (induction bs arbitrary: a) (simp_all add: horner_sum_append algebra_simps)

lemma unsigned_value_horner:
  "unsigned_value e bs = horner_sum uint 256 (case e of LITTLE \<Rightarrow> bs | BIG \<Rightarrow> rev bs)"
  by (cases e) (simp_all add: unsigned_value_def foldl_horner horner_sum_foldr)

lemma from_bytes_unsigned_value: "from_bytes bs e False = unsigned_value e bs"
  by (simp add: from_bytes_unsigned unsigned_value_horner)

lemma twos_complement_range:
  assumes "0 < w" "0 \<le> u" "u < 2 ^ w"
  shows "twos_complement w u = (if 2 ^ (w - 1) \<le> u then u - 2 ^ w else u)"
proof -
  obtain m where w: "w = Suc m" using assms(1) by (cases w) auto
  show ?thesis
  proof (cases "2 ^ m \<le> u")
    case True
    define v where "v = u - 2 ^ m"
    have v: "u = 2 ^ m * 1 + v" "0 \<le> v" "v < 2 ^ m"
      using True assms(3) w by (simp_all add: v_def)
    have d: "u div 2 ^ m = 1" by (rule int_div_pos_eq [OF v])
    have r: "u mod 2 ^ m = v" by (rule int_mod_pos_eq [OF v])
    have "bit u m" by (simp add: bit_iff_odd d)
    moreover have "take_bit m u = v" by (simp add: take_bit_eq_mod r)
    ultimately show ?thesis using True w by (simp add: twos_complement_def v_def)
  next
    case False
    then have lt: "u < 2 ^ m" by simp
    have "u div 2 ^ m = 0" using assms(2) lt by (simp add: div_pos_pos_trivial)
    then have "\<not> bit u m" by (simp add: bit_iff_odd)
    moreover have "take_bit m u = u" using assms(2) lt by (simp add: take_bit_int_eq_self)
    ultimately show ?thesis using False w by (simp add: twos_complement_def)
  qed
qed

lemma from_bytes_signed:
  "from_bytes bs e True = twos_complement (8 * length bs) (from_bytes bs e False)"
proof (cases "bs = []")
  case True
  then show ?thesis by (cases e) (simp_all add: from_bytes_def twos_complement_def)
next
  case False
  define lo where "lo = (case e of LITTLE \<Rightarrow> bs | BIG \<Rightarrow> rev bs)"
  have len: "length lo = length bs" and ne: "lo \<noteq> []"
    using False by (cases e; simp add: lo_def)+
  let ?u = "horner_sum uint 256 lo"
  have u: "from_bytes bs e False = ?u" by (simp add: from_bytes_unsigned lo_def)
  have bnd: "0 \<le> ?u" "?u < 2 ^ (8 * length bs)"
  proof -
    have "(256::int) ^ length lo = 2 ^ (8 * length lo)"
    proof -
      have "(256::int) ^ length lo = (2 ^ 8) ^ length lo" by simp
      also have "\<dots> = 2 ^ (8 * length lo)" by (rule power_mult [symmetric])
      finally show ?thesis .
    qed
    then show "0 \<le> ?u" "?u < 2 ^ (8 * length bs)"
      using horner_bytes_bounds [of lo] len by simp_all
  qed
  have sgn: "(last lo AND 0x80 \<noteq> 0) = (2 ^ (8 * length bs - 1) \<le> ?u)"
  proof -
    have "lo = butlast lo @ [last lo]" using ne by simp
    then have "(128 \<le> uint (last lo)) = (2 ^ (8 * length lo - 1) \<le> ?u)"
      using horner_sign [of "last lo" "butlast lo"] by simp
    then show ?thesis by (simp add: byte_sign_bit len)
  qed
  have "from_bytes bs e True = (if 2 ^ (8 * length bs - 1) \<le> ?u then ?u - 2 ^ (8 * length bs) else ?u)"
  proof -
    have "from_bytes bs e True =
        (if last lo AND 0x80 \<noteq> 0 then ?u - push_bit (8 * length lo) 1 else ?u)"
      using ne by (cases e) (simp_all add: from_bytes_def Let_def lo_def sum_enumerate_shift)
    then show ?thesis by (simp only: sgn len push_bit_of_1)
  qed
  also have "\<dots> = twos_complement (8 * length bs) ?u"
    using False bnd by (simp add: twos_complement_range)
  finally show ?thesis by (simp only: u)
qed

lemma and_255_mod: "(x :: int) AND 0xff = x mod 256"
proof -
  have "(0xff :: int) = mask 8" by (simp add: mask_eq_exp_minus_1)
  then have "x AND 0xff = take_bit 8 x" by (simp only: take_bit_eq_mask)
  then show ?thesis by (simp add: take_bit_eq_mod)
qed

lemma drop_bit_horner:
  "i < length bs \<Longrightarrow>
     word_of_int (drop_bit (i * 8) (horner_sum uint 256 (bs :: byte list)) AND 0xff) = bs ! i"
proof (induction bs arbitrary: i)
  case Nil
  then show ?case by simp
next
  case (Cons b bs)
  let ?h = "horner_sum uint 256 bs"
  have b: "0 \<le> uint b" "uint b < 256" using uint_bounded [of b] by simp_all
  show ?case
  proof (cases i)
    case 0
    have "(uint b + 256 * ?h) mod 256 = uint b" using b by simp
    then show ?thesis using 0 by (simp add: and_255_mod)
  next
    case (Suc j)
    have "drop_bit (Suc j * 8) (uint b + 256 * ?h) = drop_bit (j * 8) (drop_bit 8 (uint b + 256 * ?h))"
      by (simp add: drop_bit_drop_bit add.commute)
    also have "drop_bit 8 (uint b + 256 * ?h) = ?h" using b by (simp add: drop_bit_eq_div)
    finally show ?thesis using Suc Cons.prems Cons.IH [of j] by simp
  qed
qed

lemma to_bytes_from_bytes_big:
  "to_bytes (from_bytes bs BIG False) (length bs) BIG = Some bs"
proof -
  let ?lo = "rev bs"
  let ?u = "horner_sum uint 256 ?lo"
  have u: "from_bytes bs BIG False = ?u" by (simp add: from_bytes_unsigned)
  have "(256::int) ^ length bs = (2 ^ 8) ^ length bs" by simp
  also have "\<dots> = 2 ^ (8 * length bs)" by (rule power_mult [symmetric])
  finally have "0 \<le> ?u" "?u < 2 ^ (8 * length bs)"
    using horner_bytes_bounds [of ?lo] by simp_all
  moreover have "map (\<lambda>i. word_of_int (drop_bit (i * 8) ?u AND 0xff)) (rev [0..<length bs]) = bs"
  proof -
    have "map (\<lambda>i. word_of_int (drop_bit (i * 8) ?u AND 0xff)) [0..<length bs] = ?lo"
      by (rule nth_equalityI) (simp_all add: drop_bit_horner)
    then have "rev (map (\<lambda>i. word_of_int (drop_bit (i * 8) ?u AND 0xff)) [0..<length bs]) = bs"
      by simp
    then show ?thesis by (simp only: rev_map)
  qed
  ultimately show ?thesis by (simp add: to_bytes_def u Let_def)
qed

section \<open>The claims\<close>

subsection \<open>Failing calls and the offset\<close>

text \<open>
  The failures that are detected before the offset is assigned leave the reader as it
  was: a non-positive size, too few bytes for a read or a skip, a seek target out of range.
\<close>

lemma early_failures_keep_reader:
  "sz \<le> 0 \<or> \<not> has_bytes r sz \<Longrightarrow> failed r (Read t sz) \<and> after_call r (Read t sz) = r"
  "failed r (Skip n) \<Longrightarrow> after_call r (Skip n) = r"
  "failed r (Seek n) \<Longrightarrow> after_call r (Seek n) = r"
  by (auto simp: read_def skip_def seek_def split: if_splits)

text \<open>
  C1. Claim: a failing read, skip or seek leaves the offset where it was, in particular a
  failing \<open>read(Bool, size)\<close> with \<open>size \<noteq> 1\<close>. The source tests the size of a BOOL
  read only after \<open>self._offset += size\<close>: on the two bytes 01 02, \<open>read(BOOL, 2)\<close>
  raises "Bool must be 1 byte" and the offset has moved from 0 to 2.
\<close>

theorem read_bool_2_fails_after_advancing:
  "read (init [1, 2] BIG) BOOL 2 =
     (Inl (ValueError (BoolMustBe1Byte 2)), \<lparr>data = [1, 2], offset = 2, endianness = BIG\<rparr>)
   \<and> failed (init [1, 2] BIG) (Read BOOL 2)
   \<and> offset (init [1, 2] BIG) = 0
   \<and> offset (after_call (init [1, 2] BIG) (Read BOOL 2)) = 2"
  by (simp add: init_def read_def has_bytes_def Let_def)

subsection \<open>The offset invariant\<close>

text \<open>
  Skips by non-negative counts, reads and seeks keep the offset between 0 and the
  size of the buffer.
\<close>

lemma after_call_in_range:
  assumes "offset_in_range r" and "forward c"
  shows "offset_in_range (after_call r c)"
proof (cases c)
  case (Read t sz)
  then show ?thesis using assms(1)
    by (auto simp: read_def offset_in_range_def size_r_def has_bytes_def Let_def
        split: DataType.splits list.splits)
next
  case (Skip m)
  then show ?thesis using assms
    by (auto simp: skip_def offset_in_range_def size_r_def has_bytes_def)
next
  case (Seek m)
  then show ?thesis using assms(1)
    by (auto simp: seek_def offset_in_range_def size_r_def)
qed

lemma run_in_range:
  "offset_in_range r \<Longrightarrow> list_all forward cs \<Longrightarrow> offset_in_range (run r cs)"
  unfolding run_def
  by (induction cs arbitrary: r) (simp_all add: after_call_in_range)

text \<open>
  C2. Claim: from a fresh reader, \<open>0 \<le> offset \<le> size()\<close> holds before and after each
  call of any sequence of reads, skips and seeks. \<open>skip\<close> only tests
  \<open>offset + count \<le> len(data)\<close>, which every negative count passes: on a fresh reader
  over four bytes \<open>skip(-1)\<close> succeeds and leaves the offset at -1.
\<close>

theorem skip_negative_leaves_range:
  "offset_in_range (init [0, 1, 2, 3] BIG)
   \<and> \<not> failed (init [0, 1, 2, 3] BIG) (Skip (- 1))
   \<and> offset (run (init [0, 1, 2, 3] BIG) [Skip (- 1)]) = - 1
   \<and> \<not> offset_in_range (run (init [0, 1, 2, 3] BIG) [Skip (- 1)])"
  by (simp add: init_def run_def skip_def has_bytes_def offset_in_range_def size_r_def)

subsection \<open>The order of the checks of read\<close>

text \<open>
  C3, as claimed: both size errors come before the bounds error, so \<open>read(Bool, size)\<close>
  with \<open>size \<noteq> 1\<close> is an InvalidSize whatever remains. It is not: with one byte left,
  \<open>read(BOOL, 2)\<close> fails with "Cannot read 2 bytes", an OutOfBounds.
\<close>

theorem read_bool_2_on_one_byte_out_of_bounds:
  "fst (read (init [1] BIG) BOOL 2) = Inl (ValueError (CannotRead 2 0 1))
   \<and> error_kind_of (ValueError (CannotRead 2 0 1)) = Some OutOfBounds
   \<and> error_kind_of (ValueError (CannotRead 2 0 1)) \<noteq> Some InvalidSize"
  by (simp add: init_def read_def has_bytes_def)

text \<open>
  C3, amended. The order of the source is: size not positive, then too few bytes, then
  BOOL with a size other than 1. A read with a non-positive size, or a BOOL read with a
  size other than 1, always fails; the error is InvalidSize when the size is not positive
  or the bytes are there, and OutOfBounds when the size is positive and they are not.
\<close>

theorem read_check_order:
  assumes "sz \<le> 0 \<or> (t = BOOL \<and> sz \<noteq> 1)"
  shows "fst (read r t sz) =
           Inl (ValueError (if sz \<le> 0 then SizeMustBePositive sz
                            else if has_bytes r sz then BoolMustBe1Byte sz
                            else CannotRead sz (offset r) (length (data r))))
         \<and> (case fst (read r t sz) of Inl e \<Rightarrow> error_kind_of e | Inr _ \<Rightarrow> None) =
             Some (if sz \<le> 0 \<or> has_bytes r sz then InvalidSize else OutOfBounds)"
  using assms by (auto simp: read_def Let_def)

theorem read_check_order_witness:
  "((2::int) \<le> 0 \<or> (BOOL = BOOL \<and> (2::int) \<noteq> 1))
   \<and> fst (read (init [1, 2, 3] BIG) BOOL 2) = Inl (ValueError (BoolMustBe1Byte 2))
   \<and> error_kind_of (ValueError (BoolMustBe1Byte 2)) = Some InvalidSize"
proof -
  have h: "(2::int) \<le> 0 \<or> (BOOL = BOOL \<and> (2::int) \<noteq> 1)" by simp
  have b: "has_bytes (init [1, 2, 3] BIG) 2" by (simp add: has_bytes_def init_def)
  show ?thesis using h b read_check_order [OF h, of "init [1, 2, 3] BIG"] by simp
qed

subsection \<open>Unsigned and signed integers\<close>

text \<open>
  C4. With the offset in the buffer, \<open>sz > 0\<close> and \<open>sz\<close> bytes remaining,
  \<open>read(UINT, sz)\<close> succeeds, returns the \<open>sz\<close> bytes from the offset on as an unsigned
  integer in the reader's byte order, and advances the offset by \<open>sz\<close>. On 00 01 02 03,
  big-endian, two reads of 2 bytes return 1 and then 515 and nothing remains; on 01 02,
  little-endian, a read of 2 bytes returns 513.
\<close>

theorem read_uint_unsigned_value:
  assumes "0 < sz" "0 \<le> offset r" "has_bytes r sz"
  shows "read r UINT sz =
           (Inr (VInt (unsigned_value (endianness r) (consumed r sz))),
            r\<lparr>offset := offset r + sz\<rparr>)
         \<and> length (consumed r sz) = nat sz
         \<and> read (init [0, 1, 2, 3] BIG) UINT 2 =
             (Inr (VInt 1), (init [0, 1, 2, 3] BIG)\<lparr>offset := 2\<rparr>)
         \<and> read ((init [0, 1, 2, 3] BIG)\<lparr>offset := 2\<rparr>) UINT 2 =
             (Inr (VInt 515), (init [0, 1, 2, 3] BIG)\<lparr>offset := 4\<rparr>)
         \<and> remaining ((init [0, 1, 2, 3] BIG)\<lparr>offset := 4\<rparr>) = 0
         \<and> fst (read (init [1, 2] LITTLE) UINT 2) = Inr (VInt 513)"
proof -
  have gen: "read r' UINT n =
      (Inr (VInt (unsigned_value (endianness r') (consumed r' n))), r'\<lparr>offset := offset r' + n\<rparr>)
      \<and> length (consumed r' n) = nat n"
    if "0 < n" "0 \<le> offset r'" "has_bytes r' n" for r' n
    using that slice_consumed [of r' n]
    by (simp add: read_def Let_def from_bytes_unsigned_value)
  let ?a = "init [0, 1, 2, 3] BIG"
  have a1: "read ?a UINT 2 = (Inr (VInt 1), ?a\<lparr>offset := 2\<rparr>)"
    using gen [of 2 ?a]
    by (simp add: init_def has_bytes_def consumed_def unsigned_value_def)
  have a2: "read (?a\<lparr>offset := 2\<rparr>) UINT 2 = (Inr (VInt 515), ?a\<lparr>offset := 4\<rparr>)"
    using gen [of 2 "?a\<lparr>offset := 2\<rparr>"]
    by (simp add: init_def has_bytes_def consumed_def unsigned_value_def)
  have a3: "remaining (?a\<lparr>offset := 4\<rparr>) = 0"
    by (simp add: remaining_def init_def)
  have c: "fst (read (init [1, 2] LITTLE) UINT 2) = Inr (VInt 513)"
    using gen [of 2 "init [1, 2] LITTLE"]
    by (simp add: init_def has_bytes_def consumed_def unsigned_value_def)
  from gen [OF assms] a1 a2 a3 c show ?thesis by simp
qed

theorem read_uint_unsigned_value_witness:
  "(0::int) < 2 \<and> 0 \<le> offset ((init [9, 1, 2] LITTLE)\<lparr>offset := 1\<rparr>)
   \<and> has_bytes ((init [9, 1, 2] LITTLE)\<lparr>offset := 1\<rparr>) 2
   \<and> read ((init [9, 1, 2] LITTLE)\<lparr>offset := 1\<rparr>) UINT 2 =
       (Inr (VInt 513), (init [9, 1, 2] LITTLE)\<lparr>offset := 3\<rparr>)"
proof -
  let ?r = "(init [9, 1, 2] LITTLE)\<lparr>offset := 1\<rparr>"
  have h1: "(0::int) < 2" by simp
  have h2: "0 \<le> offset ?r" by (simp add: init_def)
  have h3: "has_bytes ?r 2" by (simp add: init_def has_bytes_def)
  show ?thesis
    using h1 h2 h3 read_uint_unsigned_value [OF h1 h2 h3]
    by (simp add: init_def consumed_def unsigned_value_def)
qed

text \<open>
  C5. Under the same conditions \<open>read(INT, sz)\<close> returns what \<open>read(UINT, sz)\<close> returns
  there, reinterpreted in two's complement over \<open>8 * sz\<close> bits, and advances the offset
  by \<open>sz\<close>; on the byte FF a read of 1 byte returns -1.
\<close>

theorem read_int_twos_complement:
  assumes "0 < sz" "0 \<le> offset r" "has_bytes r sz"
  shows "read r UINT sz =
           (Inr (VInt (unsigned_value (endianness r) (consumed r sz))),
            r\<lparr>offset := offset r + sz\<rparr>)
         \<and> read r INT' sz =
           (Inr (VInt (twos_complement (8 * nat sz)
                         (unsigned_value (endianness r) (consumed r sz)))),
            r\<lparr>offset := offset r + sz\<rparr>)
         \<and> fst (read (init [0xFF] BIG) INT' 1) = Inr (VInt (- 1))"
proof -
  have gen: "read r' UINT n =
        (Inr (VInt (unsigned_value (endianness r') (consumed r' n))), r'\<lparr>offset := offset r' + n\<rparr>)
      \<and> read r' INT' n =
        (Inr (VInt (twos_complement (8 * nat n) (unsigned_value (endianness r') (consumed r' n)))),
         r'\<lparr>offset := offset r' + n\<rparr>)"
    if "0 < n" "0 \<le> offset r'" "has_bytes r' n" for r' n
    using that slice_consumed [of r' n]
    by (simp add: read_def Let_def from_bytes_signed from_bytes_unsigned_value)
  have b: "fst (read (init [0xFF] BIG) INT' 1) = Inr (VInt (- 1))"
    using gen [of 1 "init [0xFF] BIG"]
    by (simp add: init_def has_bytes_def consumed_def unsigned_value_def twos_complement_def
        bit_iff_odd take_bit_eq_mod)
  from gen [OF assms] b show ?thesis by simp
qed

theorem read_int_twos_complement_witness:
  "(0::int) < 2 \<and> 0 \<le> offset (init [0xFF, 0xFE] BIG) \<and> has_bytes (init [0xFF, 0xFE] BIG) 2
   \<and> fst (read (init [0xFF, 0xFE] BIG) UINT 2) = Inr (VInt 65534)
   \<and> fst (read (init [0xFF, 0xFE] BIG) INT' 2) = Inr (VInt (- 2))"
proof -
  let ?r = "init [0xFF, 0xFE] BIG"
  have h1: "(0::int) < 2" by simp
  have h2: "0 \<le> offset ?r" by (simp add: init_def)
  have h3: "has_bytes ?r 2" by (simp add: init_def has_bytes_def)
  show ?thesis
    using h1 h2 h3 read_int_twos_complement [OF h1 h2 h3]
    by (simp add: init_def consumed_def unsigned_value_def twos_complement_def
        bit_iff_odd take_bit_eq_mod)
qed

text \<open>
  C6. For a buffer of \<open>k \<ge> 1\<close> bytes and a fresh big-endian reader, \<open>read(UINT, k)\<close>
  succeeds, and re-encoding its value as \<open>k\<close> big-endian bytes gives the buffer back.
\<close>

theorem read_uint_big_round_trip:
  assumes "length buf = k" "1 \<le> k"
  shows "\<exists>v. read (init buf BIG) UINT (int k) =
               (Inr (VInt v), (init buf BIG)\<lparr>offset := int k\<rparr>)
             \<and> to_bytes v k BIG = Some buf"
  using assms to_bytes_from_bytes_big [of buf]
  by (auto simp: read_def init_def has_bytes_def Let_def slice_whole)

theorem read_uint_big_round_trip_witness:
  "length [0xDE, 0xAD, 0xBE, 0xEF :: byte] = 4 \<and> (1::nat) \<le> 4
   \<and> (\<exists>v. read (init [0xDE, 0xAD, 0xBE, 0xEF] BIG) UINT 4 =
              (Inr (VInt v), (init [0xDE, 0xAD, 0xBE, 0xEF] BIG)\<lparr>offset := 4\<rparr>)
            \<and> to_bytes v 4 BIG = Some [0xDE, 0xAD, 0xBE, 0xEF])"
proof -
  have h1: "length [0xDE, 0xAD, 0xBE, 0xEF :: byte] = 4" by simp
  have h2: "(1::nat) \<le> 4" by simp
  show ?thesis using h1 h2 read_uint_big_round_trip [OF h1 h2] by simp
qed

subsection \<open>Peek, seek, booleans and negative skips\<close>

text \<open>
  C7. With \<open>n > 0\<close> bytes remaining, \<open>peek(n)\<close> succeeds and returns the reader as it
  was, and \<open>read(BYTES, n)\<close> right after it returns the same bytes and advances the offset
  by exactly \<open>n\<close>.
\<close>

theorem peek_then_read_bytes:
  assumes "has_bytes r n" "0 < n"
  shows "\<exists>bs. peek r n = (Inr bs, r)
              \<and> read (snd (peek r n)) BYTES n = (Inr (VBytes bs), r\<lparr>offset := offset r + n\<rparr>)"
  using assms by (auto simp: peek_def read_def Let_def)

theorem peek_then_read_bytes_witness:
  "has_bytes ((init [7, 8, 9] BIG)\<lparr>offset := 1\<rparr>) 2 \<and> (0::int) < 2
   \<and> peek ((init [7, 8, 9] BIG)\<lparr>offset := 1\<rparr>) 2 = (Inr [8, 9], (init [7, 8, 9] BIG)\<lparr>offset := 1\<rparr>)
   \<and> read ((init [7, 8, 9] BIG)\<lparr>offset := 1\<rparr>) BYTES 2 =
       (Inr (VBytes [8, 9]), (init [7, 8, 9] BIG)\<lparr>offset := 3\<rparr>)"
proof -
  let ?r = "(init [7, 8, 9] BIG)\<lparr>offset := 1\<rparr>"
  have h1: "has_bytes ?r 2" by (simp add: init_def has_bytes_def)
  have h2: "(0::int) < 2" by simp
  have p: "peek ?r 2 = (Inr [8, 9], ?r)"
    by (simp add: peek_def init_def has_bytes_def py_slice_def adjust_index_def)
  show ?thesis
    using h1 h2 p peek_then_read_bytes [OF h1 h2]
    by (auto simp: init_def)
qed

text \<open>
  C8. \<open>seek(target)\<close> succeeds, with the offset at \<open>target\<close>, exactly when
  \<open>0 \<le> target \<le> len(data)\<close>; otherwise it fails with the invalid-offset error and the
  reader is as before. \<open>seek(-1)\<close> fails on every reader; \<open>seek(size())\<close> succeeds on
  every reader and leaves nothing remaining.
\<close>

theorem seek_succeeds_iff_in_range:
  "seek r t =
     (if 0 \<le> t \<and> t \<le> size_r r then (Inr (), r\<lparr>offset := t\<rparr>)
      else (Inl (ValueError (InvalidSeekOffset t (length (data r)))), r))
   \<and> (\<not> isl (fst (seek r t)) \<and> offset (snd (seek r t)) = t) = (0 \<le> t \<and> t \<le> size_r r)
   \<and> isl (fst (seek r t)) = (\<not> (0 \<le> t \<and> t \<le> size_r r))
   \<and> error_kind_of (ValueError (InvalidSeekOffset t (length (data r)))) = Some InvalidOffset
   \<and> seek r (- 1) = (Inl (ValueError (InvalidSeekOffset (- 1) (length (data r)))), r)
   \<and> \<not> isl (fst (seek r (size_r r)))
   \<and> remaining (snd (seek r (size_r r))) = 0"
  by (auto simp: seek_def size_r_def remaining_def)

text \<open>
  C9. With the offset in the buffer and at least one byte remaining, \<open>read(BOOL, 1)\<close>
  succeeds, returns whether the byte at the offset differs from 0, and advances the offset
  by 1; the byte 00 reads as false and the byte 7F as true.
\<close>

theorem read_bool_nonzero:
  assumes "0 \<le> offset r" "has_bytes r 1"
  shows "consumed r 1 = [data r ! nat (offset r)]
         \<and> nat (offset r) < length (data r)
         \<and> read r BOOL 1 =
             (Inr (VBool (data r ! nat (offset r) \<noteq> 0)), r\<lparr>offset := offset r + 1\<rparr>)
         \<and> fst (read (init [0x00] e) BOOL 1) = Inr (VBool False)
         \<and> fst (read (init [0x7F] e) BOOL 1) = Inr (VBool True)"
proof -
  have gen: "consumed r' 1 = [data r' ! nat (offset r')]
      \<and> nat (offset r') < length (data r')
      \<and> read r' BOOL 1 =
          (Inr (VBool (data r' ! nat (offset r') \<noteq> 0)), r'\<lparr>offset := offset r' + 1\<rparr>)"
    if h: "0 \<le> offset r'" "has_bytes r' 1" for r'
  proof -
    from h have lt: "nat (offset r') < length (data r')" by (auto simp: has_bytes_def)
    then have c: "consumed r' 1 = [data r' ! nat (offset r')]"
      by (simp add: consumed_def take_Suc hd_drop_conv_nth)
    have "py_slice (data r') (offset r') (offset r' + 1) = consumed r' 1"
      using h by (intro slice_consumed) simp_all
    with c lt h show ?thesis by (simp add: read_def Let_def)
  qed
  have f0: "fst (read (init [0x00] e) BOOL 1) = Inr (VBool False)"
    using gen [of "init [0x00] e"] by (simp add: init_def has_bytes_def)
  have f1: "fst (read (init [0x7F] e) BOOL 1) = Inr (VBool True)"
    using gen [of "init [0x7F] e"] by (simp add: init_def has_bytes_def)
  from gen [OF assms] f0 f1 show ?thesis by simp
qed

theorem read_bool_nonzero_witness:
  "0 \<le> offset ((init [0, 5] BIG)\<lparr>offset := 1\<rparr>)
   \<and> has_bytes ((init [0, 5] BIG)\<lparr>offset := 1\<rparr>) 1
   \<and> read ((init [0, 5] BIG)\<lparr>offset := 1\<rparr>) BOOL 1 =
       (Inr (VBool True), (init [0, 5] BIG)\<lparr>offset := 2\<rparr>)"
proof -
  let ?r = "(init [0, 5] BIG)\<lparr>offset := 1\<rparr>"
  have h1: "0 \<le> offset ?r" by (simp add: init_def)
  have h2: "has_bytes ?r 1" by (simp add: init_def has_bytes_def)
  show ?thesis
    using h1 h2 read_bool_nonzero [OF h1 h2, of BIG]
    by (simp add: init_def)
qed

text \<open>
  C10. With the offset in range and a negative count \<open>n\<close>, \<open>has_bytes(n)\<close> is true and
  \<open>skip(n)\<close> succeeds with the offset at \<open>offset + n\<close>: further back, and below 0
  exactly when \<open>n < - offset\<close>.
\<close>

theorem skip_negative_moves_back:
  assumes "0 \<le> offset r" "offset r \<le> int (length (data r))" "n < 0"
  shows "has_bytes r n
         \<and> skip r n = (Inr (), r\<lparr>offset := offset r + n\<rparr>)
         \<and> offset (snd (skip r n)) < offset r
         \<and> (offset (snd (skip r n)) < 0) = (n < - offset r)"
  using assms by (auto simp: has_bytes_def skip_def)

theorem skip_negative_moves_back_witness:
  "0 \<le> offset ((init [1, 2, 3] BIG)\<lparr>offset := 2\<rparr>)
   \<and> offset ((init [1, 2, 3] BIG)\<lparr>offset := 2\<rparr>) \<le> int (length (data ((init [1, 2, 3] BIG)\<lparr>offset := 2\<rparr>)))
   \<and> (- 3 :: int) < 0
   \<and> has_bytes ((init [1, 2, 3] BIG)\<lparr>offset := 2\<rparr>) (- 3)
   \<and> skip ((init [1, 2, 3] BIG)\<lparr>offset := 2\<rparr>) (- 3) = (Inr (), (init [1, 2, 3] BIG)\<lparr>offset := - 1\<rparr>)"
proof -
  let ?r = "(init [1, 2, 3] BIG)\<lparr>offset := 2\<rparr>"
  have h1: "0 \<le> offset ?r" by (simp add: init_def)
  have h2: "offset ?r \<le> int (length (data ?r))" by (simp add: init_def)
  have h3: "(- 3 :: int) < 0" by simp
  show ?thesis
    using h1 h2 h3 skip_negative_moves_back [OF h1 h2 h3]
    by (simp add: init_def)
qed

end
